theory Spec2Isabelle
  imports Main "HOL-Library.Multiset"
begin

section \<open>The data model of \<^verbatim>\<open>include/bst.hpp\<close>\<close>

text \<open>
  \<^verbatim>\<open>struct TreeNode { T data; TreeNode* left; TreeNode* right; }\<close>.
  A \<^verbatim>\<open>TreeNode*\<close> is either \<^verbatim>\<open>nullptr\<close> (\<open>None\<close>) or owns exactly one
  node (\<open>Some n\<close>); children are owned exclusively, so the heap reachable from a
  pointer is a finite tree and no two pointers alias.

  The element type \<^verbatim>\<open>T\<close> is only required to have \<^verbatim>\<open>operator<\<close>: it is a type
  of class \<open>ord\<close>, about whose \<open><\<close> nothing is assumed by the definitions.
\<close>

datatype 'a TreeNode =
  TreeNode (data: 'a) (left: "'a TreeNode option") (right: "'a TreeNode option")

text \<open>\<^verbatim>\<open>class BST { TreeNode* root; }\<close> and its constructor \<^verbatim>\<open>BST() : root(nullptr)\<close>.\<close>

record 'a BST =
  root :: "'a TreeNode option"

definition BST_new :: "'a BST" where
  "BST_new = \<lparr>root = None\<rparr>"

section \<open>The operations\<close>

subsection \<open>\<^verbatim>\<open>TreeNode::max\<close>, \<^verbatim>\<open>TreeNode::min\<close>\<close>

text \<open>Both are methods of a node (\<^verbatim>\<open>this\<close> is never null) and return a pointer to a
  node of its subtree, here the node itself with all it owns.\<close>

fun max_node :: "'a TreeNode \<Rightarrow> 'a TreeNode" where
  "max_node (TreeNode d l r) =
     (case r of None \<Rightarrow> TreeNode d l r | Some rn \<Rightarrow> max_node rn)"

fun min_node :: "'a TreeNode \<Rightarrow> 'a TreeNode" where
  "min_node (TreeNode d l r) =
     (case l of None \<Rightarrow> TreeNode d l r | Some ln \<Rightarrow> min_node ln)"

subsection \<open>The private recursive functions\<close>

text \<open>\<^verbatim>\<open>bool insert(TreeNode*& node, const T& value)\<close>: the pointer is passed by
  reference, so the model returns the flag together with the new pointer.\<close>

fun insert_node :: "'a::ord TreeNode option \<Rightarrow> 'a \<Rightarrow> bool \<times> 'a TreeNode option" where
  "insert_node None v = (True, Some (TreeNode v None None))"
| "insert_node (Some (TreeNode d l r)) v =
     (if v < d then
        (case insert_node l v of (b, l') \<Rightarrow> (b, Some (TreeNode d l' r)))
      else if d < v then
        (case insert_node r v of (b, r') \<Rightarrow> (b, Some (TreeNode d l r')))
      else (False, Some (TreeNode d l r)))"

fun contain_node :: "'a::ord TreeNode option \<Rightarrow> 'a \<Rightarrow> bool" where
  "contain_node None v = False"
| "contain_node (Some (TreeNode d l r)) v =
     (if v < d then contain_node l v
      else if d < v then contain_node r v
      else True)"

fun find_node_rec :: "'a::ord TreeNode option \<Rightarrow> 'a \<Rightarrow> 'a TreeNode option" where
  "find_node_rec None v = None"
| "find_node_rec (Some (TreeNode d l r)) v =
     (if v < d then find_node_rec l v
      else if d < v then find_node_rec r v
      else Some (TreeNode d l r))"

text \<open>\<^verbatim>\<open>bool remove(TreeNode*& node, const T& value)\<close>. In the two-children case the
  result of the inner call is discarded and \<^verbatim>\<open>true\<close> is returned. The inner call
  receives a reference to \<^verbatim>\<open>successor->data\<close>; every call reads its \<^verbatim>\<open>value\<close> only
  in the two comparisons, before it changes anything, so passing the value is the
  same.\<close>

fun remove_node :: "'a::ord TreeNode option \<Rightarrow> 'a \<Rightarrow> bool \<times> 'a TreeNode option" where
  "remove_node None v = (False, None)"
| "remove_node (Some (TreeNode d l r)) v =
     (if v < d then
        (case remove_node l v of (b, l') \<Rightarrow> (b, Some (TreeNode d l' r)))
      else if d < v then
        (case remove_node r v of (b, r') \<Rightarrow> (b, Some (TreeNode d l r')))
      else
        (case l of
           None \<Rightarrow> (True, r)
         | Some ln \<Rightarrow>
             (case r of
                None \<Rightarrow> (True, l)
              | Some rn \<Rightarrow>
                  (let successor = min_node rn;
                       d' = data successor
                   in (True, Some (TreeNode d' l (snd (remove_node r d'))))))))"

text \<open>The traversals append to the caller's vector \<^verbatim>\<open>result\<close>, which the model
  threads through.\<close>

fun in_order_node :: "'a TreeNode option \<Rightarrow> 'a list \<Rightarrow> 'a list" where
  "in_order_node None result = result"
| "in_order_node (Some (TreeNode d l r)) result =
     in_order_node r (in_order_node l result @ [d])"

fun pre_order_node :: "'a TreeNode option \<Rightarrow> 'a list \<Rightarrow> 'a list" where
  "pre_order_node None result = result"
| "pre_order_node (Some (TreeNode d l r)) result =
     pre_order_node r (pre_order_node l (result @ [d]))"

fun post_order_node :: "'a TreeNode option \<Rightarrow> 'a list \<Rightarrow> 'a list" where
  "post_order_node None result = result"
| "post_order_node (Some (TreeNode d l r)) result =
     post_order_node r (post_order_node l result) @ [d]"

subsection \<open>The public interface\<close>

definition BST_insert :: "'a::ord BST \<Rightarrow> 'a \<Rightarrow> bool \<times> 'a BST" where
  "BST_insert t v = (case insert_node (root t) v of (b, n) \<Rightarrow> (b, t\<lparr>root := n\<rparr>))"

definition BST_remove :: "'a::ord BST \<Rightarrow> 'a \<Rightarrow> bool \<times> 'a BST" where
  "BST_remove t v = (case remove_node (root t) v of (b, n) \<Rightarrow> (b, t\<lparr>root := n\<rparr>))"

definition BST_contain :: "'a::ord BST \<Rightarrow> 'a \<Rightarrow> bool" where
  "BST_contain t v = contain_node (root t) v"

definition find_node :: "'a::ord BST \<Rightarrow> 'a \<Rightarrow> 'a TreeNode option" where
  "find_node t v = find_node_rec (root t) v"

definition in_order :: "'a BST \<Rightarrow> 'a list" where
  "in_order t = in_order_node (root t) []"

definition pre_order :: "'a BST \<Rightarrow> 'a list" where
  "pre_order t = pre_order_node (root t) []"

definition post_order :: "'a BST \<Rightarrow> 'a list" where
  "post_order t = post_order_node (root t) []"

section \<open>Notions used to state the properties\<close>

text \<open>The values stored below a pointer.\<close>

fun elems :: "'a TreeNode option \<Rightarrow> 'a set" where
  "elems None = {}"
| "elems (Some (TreeNode d l r)) = elems l \<union> {d} \<union> elems r"

text \<open>The binary-search-tree invariant: at every node, all values of the left subtree
  are less than the node's value, which is less than all values of the right subtree.\<close>

fun bst :: "'a::ord TreeNode option \<Rightarrow> bool" where
  "bst None = True"
| "bst (Some (TreeNode d l r)) =
     ((\<forall>x \<in> elems l. x < d) \<and> (\<forall>x \<in> elems r. d < x) \<and> bst l \<and> bst r)"

text \<open>The contract on \<^verbatim>\<open>operator<\<close>: a strict weak ordering (irreflexive, transitive,
  and with a transitive incomparability relation).\<close>

definition strict_weak_order :: "('a \<Rightarrow> 'a \<Rightarrow> bool) \<Rightarrow> bool" where
  "strict_weak_order lt \<longleftrightarrow>
     (\<forall>a. \<not> lt a a) \<and>
     (\<forall>a b c. lt a b \<longrightarrow> lt b c \<longrightarrow> lt a c) \<and>
     (\<forall>a b c. \<not> lt a b \<and> \<not> lt b a \<longrightarrow> \<not> lt b c \<and> \<not> lt c b \<longrightarrow> \<not> lt a c \<and> \<not> lt c a)"

text \<open>Comparison-equality, derived from \<open><\<close> alone.\<close>

definition cmp_equal :: "'a::ord \<Rightarrow> 'a \<Rightarrow> bool" where
  "cmp_equal a b \<longleftrightarrow> \<not> a < b \<and> \<not> b < a"

text \<open>The nodes below a pointer, each with all it owns.\<close>

fun subtrees :: "'a TreeNode option \<Rightarrow> 'a TreeNode set" where
  "subtrees None = {}"
| "subtrees (Some (TreeNode d l r)) = {TreeNode d l r} \<union> subtrees l \<union> subtrees r"

text \<open>\<open>adds_leaf n v n'\<close>: the tree \<open>n'\<close> is the tree \<open>n\<close> with exactly one absent
  child slot filled by a new leaf holding \<open>v\<close>; every other node is as it was.\<close>

fun adds_leaf :: "'a TreeNode option \<Rightarrow> 'a \<Rightarrow> 'a TreeNode option \<Rightarrow> bool" where
  "adds_leaf None v n' = (n' = Some (TreeNode v None None))"
| "adds_leaf (Some (TreeNode d l r)) v n' =
     (case n' of
        None \<Rightarrow> False
      | Some t' \<Rightarrow>
          data t' = d \<and>
          (adds_leaf l v (left t') \<and> right t' = r \<or> left t' = l \<and> adds_leaf r v (right t')))"

text \<open>The tree below a node after its leftmost node has been spliced out, that is,
  replaced by its own right child (the first case of \<^verbatim>\<open>remove\<close>, applied at the
  minimum).\<close>

fun splice_min :: "'a TreeNode \<Rightarrow> 'a TreeNode option" where
  "splice_min (TreeNode d l r) =
     (case l of None \<Rightarrow> r | Some ln \<Rightarrow> Some (TreeNode d (splice_min ln) r))"

text \<open>\<open>replace_node n v new\<close>: the tree \<open>n\<close> in which the node that the descent for
  \<open>v\<close> stops at is replaced by \<open>new\<close>, everything off that path being kept.\<close>

fun replace_node ::
  "'a::ord TreeNode option \<Rightarrow> 'a \<Rightarrow> 'a TreeNode option \<Rightarrow> 'a TreeNode option" where
  "replace_node None v new = None"
| "replace_node (Some (TreeNode d l r)) v new =
     (if v < d then Some (TreeNode d (replace_node l v new) r)
      else if d < v then Some (TreeNode d l (replace_node r v new))
      else new)"

text \<open>A finite sequence of mutating calls, run from the empty tree.\<close>

datatype 'a op = Insert 'a | Remove 'a

fun apply_op :: "'a::ord BST \<Rightarrow> 'a op \<Rightarrow> 'a BST" where
  "apply_op t (Insert v) = snd (BST_insert t v)"
| "apply_op t (Remove v) = snd (BST_remove t v)"

definition run_ops :: "'a::ord op list \<Rightarrow> 'a BST" where
  "run_ops ops = foldl apply_op BST_new ops"

text \<open>An element type whose \<open><\<close> looks at a key only: two entries with the same key
  and different payloads are comparison-equal and not equal.\<close>

datatype entry = Entry (key: int) (payload: string)

instantiation entry :: ord
begin

definition less_entry :: "entry \<Rightarrow> entry \<Rightarrow> bool" where
  "less_entry a b \<longleftrightarrow> key a < key b"

definition less_eq_entry :: "entry \<Rightarrow> entry \<Rightarrow> bool" where
  "less_eq_entry a b \<longleftrightarrow> key a \<le> key b"

instance ..

end

section \<open>Strict weak orderings\<close>

lemma swo_irrefl: "strict_weak_order ((<) :: 'a::ord \<Rightarrow> 'a \<Rightarrow> bool) \<Longrightarrow> \<not> (a::'a) < a"
  by (simp add: strict_weak_order_def)

lemma swo_trans:
  "strict_weak_order ((<) :: 'a::ord \<Rightarrow> 'a \<Rightarrow> bool) \<Longrightarrow> (a::'a) < b \<Longrightarrow> b < c \<Longrightarrow> a < c"
  unfolding strict_weak_order_def by blast

lemma swo_cotrans:
  "strict_weak_order ((<) :: 'a::ord \<Rightarrow> 'a \<Rightarrow> bool) \<Longrightarrow> (a::'a) < b \<Longrightarrow> a < c \<or> c < b"
  unfolding strict_weak_order_def by metis

lemma swo_int: "strict_weak_order ((<) :: int \<Rightarrow> int \<Rightarrow> bool)"
  unfolding strict_weak_order_def by auto

lemma swo_entry: "strict_weak_order ((<) :: entry \<Rightarrow> entry \<Rightarrow> bool)"
  unfolding strict_weak_order_def less_entry_def by auto

lemma sorted_wrt_distinct:
  "sorted_wrt P xs \<Longrightarrow> (\<And>x. \<not> P x x) \<Longrightarrow> distinct xs"
  by (induction xs) auto

lemma sorted_wrt_comparable:
  "sorted_wrt P xs \<Longrightarrow> x \<in> set xs \<Longrightarrow> y \<in> set xs \<Longrightarrow> x \<noteq> y \<Longrightarrow> P x y \<or> P y x"
  by (induction xs) auto

section \<open>Traversals\<close>

lemma in_order_node_acc: "in_order_node n acc = acc @ in_order_node n []"
proof (induction n arbitrary: acc rule: elems.induct)
  case 1
  show ?case by simp
next
  case (2 d l r)
  have "in_order_node (Some (TreeNode d l r)) acc = in_order_node r (in_order_node l acc @ [d])"
    by simp
  also have "\<dots> = (in_order_node l acc @ [d]) @ in_order_node r []"
    by (rule "2.IH"(2))
  also have "\<dots> = acc @ (in_order_node l [] @ [d]) @ in_order_node r []"
    by (simp add: "2.IH"(1) [of acc])
  also have "\<dots> = acc @ in_order_node r (in_order_node l [] @ [d])"
    by (simp only: "2.IH"(2) [of "in_order_node l [] @ [d]"])
  finally show ?case by simp
qed

lemma in_order_node_Some:
  "in_order_node (Some (TreeNode d l r)) [] = in_order_node l [] @ d # in_order_node r []"
  using in_order_node_acc [of r "in_order_node l [] @ [d]"] by simp

lemma pre_order_node_acc: "pre_order_node n acc = acc @ pre_order_node n []"
proof (induction n arbitrary: acc rule: elems.induct)
  case 1
  show ?case by simp
next
  case (2 d l r)
  have "pre_order_node (Some (TreeNode d l r)) acc = pre_order_node r (pre_order_node l (acc @ [d]))"
    by simp
  also have "\<dots> = pre_order_node l (acc @ [d]) @ pre_order_node r []"
    by (rule "2.IH"(2))
  also have "\<dots> = acc @ ([d] @ pre_order_node l []) @ pre_order_node r []"
    by (simp add: "2.IH"(1) [of "acc @ [d]"])
  also have "\<dots> = acc @ pre_order_node l [d] @ pre_order_node r []"
    by (simp add: "2.IH"(1) [of "[d]"])
  also have "\<dots> = acc @ pre_order_node r (pre_order_node l [d])"
    by (simp only: "2.IH"(2) [of "pre_order_node l [d]"])
  finally show ?case by simp
qed

lemma pre_order_node_Some:
  "pre_order_node (Some (TreeNode d l r)) [] = d # pre_order_node l [] @ pre_order_node r []"
  using pre_order_node_acc [of r "pre_order_node l [d]"] pre_order_node_acc [of l "[d]"]
  by simp

lemma post_order_node_acc: "post_order_node n acc = acc @ post_order_node n []"
proof (induction n arbitrary: acc rule: elems.induct)
  case 1
  show ?case by simp
next
  case (2 d l r)
  have "post_order_node (Some (TreeNode d l r)) acc = post_order_node r (post_order_node l acc) @ [d]"
    by simp
  also have "\<dots> = (post_order_node l acc @ post_order_node r []) @ [d]"
    by (simp only: "2.IH"(2) [of "post_order_node l acc"])
  also have "\<dots> = acc @ (post_order_node l [] @ post_order_node r []) @ [d]"
    by (simp add: "2.IH"(1) [of acc])
  also have "\<dots> = acc @ post_order_node r (post_order_node l []) @ [d]"
    by (simp only: "2.IH"(2) [of "post_order_node l []"])
  finally show ?case by simp
qed

lemma post_order_node_Some:
  "post_order_node (Some (TreeNode d l r)) [] =
     post_order_node l [] @ post_order_node r [] @ [d]"
  using post_order_node_acc [of r "post_order_node l []"] by simp

lemma set_in_order_node: "set (in_order_node n []) = elems n"
  by (induction n rule: elems.induct) (auto simp: in_order_node_Some simp del: in_order_node.simps(2))

lemma mset_pre_order_node: "mset (pre_order_node n []) = mset (in_order_node n [])"
  by (induction n rule: elems.induct)
     (simp_all add: in_order_node_Some pre_order_node_Some
        del: in_order_node.simps(2) pre_order_node.simps(2))

lemma mset_post_order_node: "mset (post_order_node n []) = mset (in_order_node n [])"
  by (induction n rule: elems.induct)
     (simp_all add: in_order_node_Some post_order_node_Some
        del: in_order_node.simps(2) post_order_node.simps(2))

lemma traversals_pre_in: "mset (pre_order t) = mset (in_order t)"
  by (simp add: pre_order_def in_order_def mset_pre_order_node)

lemma traversals_post_in: "mset (post_order t) = mset (in_order t)"
  by (simp add: post_order_def in_order_def mset_post_order_node)

text \<open>
  C10: on the empty tree (\<open>root\<close> absent, as the constructor leaves it), each of
  \<open>in_order\<close>, \<open>pre_order\<close> and \<open>post_order\<close> returns the empty sequence.
\<close>

theorem traversals_of_empty_tree:
  "root (BST_new :: 'a BST) = None \<and>
   in_order (BST_new :: 'a BST) = [] \<and>
   pre_order (BST_new :: 'a BST) = [] \<and>
   post_order (BST_new :: 'a BST) = []"
  by (simp add: BST_new_def in_order_def pre_order_def post_order_def)

text \<open>
  C9: for every tree, whatever its shape and order, the three traversals are
  permutations of one another: they hold the same multiset of stored values, and so
  have the same length.
\<close>

theorem traversals_are_permutations:
  "mset (in_order t) = mset (pre_order t) \<and>
   mset (pre_order t) = mset (post_order t) \<and>
   mset (in_order t) = mset (post_order t) \<and>
   length (in_order t) = length (pre_order t) \<and>
   length (pre_order t) = length (post_order t)"
proof -
  have pre: "mset (pre_order t) = mset (in_order t)"
    by (simp add: pre_order_def in_order_def mset_pre_order_node)
  have post: "mset (post_order t) = mset (in_order t)"
    by (simp add: post_order_def in_order_def mset_post_order_node)
  have "length (pre_order t) = length (in_order t)"
    using pre by (rule mset_eq_length)
  moreover have "length (post_order t) = length (in_order t)"
    using post by (rule mset_eq_length)
  ultimately show ?thesis
    using pre post by simp
qed

text \<open>
  C7: for every non-empty tree (\<open>root\<close> points to a node \<open>n\<close>), \<open>pre_order\<close> starts
  with the root's value and \<open>post_order\<close> ends with it. After inserting 5, 3, 8, 1, 4
  in that order into the empty tree, \<open>in_order\<close> is [1,3,4,5,8], \<open>pre_order\<close> is
  [5,3,1,4,8] and \<open>post_order\<close> is [1,4,3,8,5].
\<close>

theorem root_first_in_pre_order_last_in_post_order:
  "(root t = Some n \<longrightarrow>
      pre_order t \<noteq> [] \<and> hd (pre_order t) = data n \<and>
      post_order t \<noteq> [] \<and> last (post_order t) = data n) \<and>
   in_order (run_ops [Insert 5, Insert 3, Insert 8, Insert 1, Insert (4::int)]) = [1, 3, 4, 5, 8] \<and>
   pre_order (run_ops [Insert 5, Insert 3, Insert 8, Insert 1, Insert (4::int)]) = [5, 3, 1, 4, 8] \<and>
   post_order (run_ops [Insert 5, Insert 3, Insert 8, Insert 1, Insert (4::int)]) = [1, 4, 3, 8, 5]"
proof -
  have general: "pre_order t \<noteq> [] \<and> hd (pre_order t) = data n \<and>
      post_order t \<noteq> [] \<and> last (post_order t) = data n" if "root t = Some n"
  proof (cases n)
    case (TreeNode d l r)
    with that show ?thesis
      by (simp add: pre_order_def post_order_def pre_order_node_Some post_order_node_Some
            del: pre_order_node.simps(2) post_order_node.simps(2))
  qed
  have "in_order (run_ops [Insert 5, Insert 3, Insert 8, Insert 1, Insert (4::int)]) = [1, 3, 4, 5, 8]"
    by (simp add: run_ops_def BST_new_def BST_insert_def in_order_def)
  moreover
  have "pre_order (run_ops [Insert 5, Insert 3, Insert 8, Insert 1, Insert (4::int)]) = [5, 3, 1, 4, 8]"
    by (simp add: run_ops_def BST_new_def BST_insert_def pre_order_def)
  moreover
  have "post_order (run_ops [Insert 5, Insert 3, Insert 8, Insert 1, Insert (4::int)]) = [1, 4, 3, 8, 5]"
    by (simp add: run_ops_def BST_new_def BST_insert_def post_order_def)
  ultimately show ?thesis using general by blast
qed

theorem root_first_in_pre_order_last_in_post_order_witness:
  "root \<lparr>root = Some (TreeNode (2::int) (Some (TreeNode 1 None None)) (Some (TreeNode 3 None None)))\<rparr>
     = Some (TreeNode 2 (Some (TreeNode 1 None None)) (Some (TreeNode 3 None None))) \<and>
   pre_order \<lparr>root = Some (TreeNode (2::int) (Some (TreeNode 1 None None)) (Some (TreeNode 3 None None)))\<rparr>
     = [2, 1, 3] \<and>
   hd (pre_order \<lparr>root = Some (TreeNode (2::int) (Some (TreeNode 1 None None)) (Some (TreeNode 3 None None)))\<rparr>) = 2 \<and>
   post_order \<lparr>root = Some (TreeNode (2::int) (Some (TreeNode 1 None None)) (Some (TreeNode 3 None None)))\<rparr>
     = [1, 3, 2] \<and>
   last (post_order \<lparr>root = Some (TreeNode (2::int) (Some (TreeNode 1 None None)) (Some (TreeNode 3 None None)))\<rparr>) = 2"
  using root_first_in_pre_order_last_in_post_order
    [of "\<lparr>root = Some (TreeNode (2::int) (Some (TreeNode 1 None None)) (Some (TreeNode 3 None None)))\<rparr>"
        "TreeNode 2 (Some (TreeNode 1 None None)) (Some (TreeNode 3 None None))"]
  by (simp add: pre_order_def post_order_def)

section \<open>Lookup\<close>

lemma find_node_rec_None: "find_node_rec n v = None \<longleftrightarrow> \<not> contain_node n v"
  by (induction n v rule: find_node_rec.induct) auto

lemma find_node_rec_Some:
  "find_node_rec n v = Some s \<Longrightarrow> cmp_equal v (data s) \<and> s \<in> subtrees n"
  by (induction n v rule: find_node_rec.induct) (auto simp: cmp_equal_def split: if_splits)

lemma contain_node_iff:
  assumes "strict_weak_order ((<) :: 'a::ord \<Rightarrow> 'a \<Rightarrow> bool)"
  shows "bst n \<Longrightarrow> contain_node n (v::'a) \<longleftrightarrow> (\<exists>x \<in> elems n. cmp_equal v x)"
proof (induction n v rule: contain_node.induct)
  case (1 v)
  show ?case by simp
next
  case (2 d l r v)
  have bl: "bst l" and br: "bst r" and L: "\<forall>x \<in> elems l. x < d" and R: "\<forall>x \<in> elems r. d < x"
    using "2.prems" by auto
  show ?case
  proof (cases "v < d")
    case True
    have "\<not> cmp_equal v x" if "x \<in> elems r \<or> x = d" for x
    proof
      assume e: "cmp_equal v x"
      from swo_cotrans [OF assms True, of x] e have "x < d" by (simp add: cmp_equal_def)
      with that R swo_trans [OF assms, of d x d] swo_irrefl [OF assms, of d]
      show False by auto
    qed
    with True "2.IH"(1) bl show ?thesis by auto
  next
    case False
    note nlt = this
    show ?thesis
    proof (cases "d < v")
      case True
      have "\<not> cmp_equal v x" if "x \<in> elems l \<or> x = d" for x
      proof
        assume e: "cmp_equal v x"
        from swo_cotrans [OF assms True, of x] e have "d < x" by (simp add: cmp_equal_def)
        with that L swo_trans [OF assms, of d x d] swo_irrefl [OF assms, of d]
        show False by auto
      qed
      with True nlt "2.IH"(2) br show ?thesis by auto
    next
      case False
      with nlt show ?thesis by (auto simp: cmp_equal_def)
    qed
  qed
qed

text \<open>
  C8: for every tree (the invariant is not needed) and every value \<open>v\<close>,
  \<open>find_node v\<close> is absent exactly when \<open>contain v\<close> is false; otherwise it is a node
  of the tree whose value is comparison-equal to \<open>v\<close>: neither \<open>v < data n\<close> nor
  \<open>data n < v\<close>. Both functions only read the tree: neither returns a new one.
\<close>

theorem find_node_agrees_with_contain:
  "(find_node t v = None \<longleftrightarrow> \<not> BST_contain t v) \<and>
   (\<forall>n. find_node t v = Some n \<longrightarrow>
      BST_contain t v \<and> n \<in> subtrees (root t) \<and> \<not> v < data n \<and> \<not> data n < v)"
proof -
  have "find_node t v = None \<longleftrightarrow> \<not> BST_contain t v"
    by (simp add: find_node_def BST_contain_def find_node_rec_None)
  moreover have "BST_contain t v \<and> n \<in> subtrees (root t) \<and> \<not> v < data n \<and> \<not> data n < v"
    if "find_node t v = Some n" for n
    using that find_node_rec_Some [of "root t" v n] find_node_rec_None [of "root t" v]
    by (simp add: find_node_def BST_contain_def cmp_equal_def)
  ultimately show ?thesis by blast
qed

theorem find_node_agrees_with_contain_witness:
  "find_node \<lparr>root = Some (TreeNode (Entry 2 ''b'') (Some (TreeNode (Entry 1 ''a'') None None)) None)\<rparr>
      (Entry 1 ''z'') = Some (TreeNode (Entry 1 ''a'') None None) \<and>
   BST_contain \<lparr>root = Some (TreeNode (Entry 2 ''b'') (Some (TreeNode (Entry 1 ''a'') None None)) None)\<rparr>
      (Entry 1 ''z'') \<and>
   \<not> Entry 1 ''z'' < data (TreeNode (Entry 1 ''a'') None None) \<and>
   \<not> data (TreeNode (Entry 1 ''a'') None None) < Entry 1 ''z''"
  using find_node_agrees_with_contain
    [of "\<lparr>root = Some (TreeNode (Entry 2 ''b'') (Some (TreeNode (Entry 1 ''a'') None None)) None)\<rparr>"
        "Entry 1 ''z''"]
  by (simp add: find_node_def BST_contain_def less_entry_def)

section \<open>Insertion\<close>

lemma BST_insert_simps:
  "fst (BST_insert t v) = fst (insert_node (root t) v)"
  "root (snd (BST_insert t v)) = snd (insert_node (root t) v)"
  by (simp_all add: BST_insert_def split_beta)

lemma fst_insert_node: "fst (insert_node n v) = (\<not> contain_node n v)"
  by (induction n v rule: insert_node.induct) (auto simp: split_beta)

lemma elems_insert_node:
  "elems (snd (insert_node n v)) = (if fst (insert_node n v) then elems n \<union> {v} else elems n)"
  by (induction n v rule: insert_node.induct) (auto split: prod.splits)

lemma bst_insert_node: "bst n \<Longrightarrow> bst (snd (insert_node n v))"
proof (induction n v rule: insert_node.induct)
  case (1 v)
  show ?case by simp
next
  case (2 d l r v)
  show ?case
  proof (cases "v < d")
    case True
    with 2 have "bst (snd (insert_node l v))" by simp
    moreover have "\<forall>x \<in> elems (snd (insert_node l v)). x < d"
      using True "2.prems" by (auto simp: elems_insert_node split: if_splits)
    ultimately show ?thesis using True "2.prems" by (simp add: split_beta)
  next
    case False
    note nlt = this
    show ?thesis
    proof (cases "d < v")
      case True
      with 2 nlt have "bst (snd (insert_node r v))" by simp
      moreover have "\<forall>x \<in> elems (snd (insert_node r v)). d < x"
        using True "2.prems" by (auto simp: elems_insert_node split: if_splits)
      ultimately show ?thesis using True nlt "2.prems" by (simp add: split_beta)
    next
      case False
      with nlt "2.prems" show ?thesis by simp
    qed
  qed
qed

lemma insert_node_True_adds_leaf:
  "fst (insert_node n v) \<Longrightarrow> adds_leaf n v (snd (insert_node n v))"
  by (induction n v rule: insert_node.induct) (auto simp: split_beta split: if_splits)

lemma insert_node_False_same: "\<not> fst (insert_node n v) \<Longrightarrow> snd (insert_node n v) = n"
  by (induction n v rule: insert_node.induct) (auto simp: split_beta split: if_splits)

lemma in_order_insert_node:
  "fst (insert_node n v) \<Longrightarrow>
     mset (in_order_node (snd (insert_node n v)) []) = add_mset v (mset (in_order_node n []))"
  by (induction n v rule: insert_node.induct)
     (auto simp: split_beta in_order_node_Some simp del: in_order_node.simps(2) split: if_splits)

lemma contain_insert_node:
  "\<not> v < v \<Longrightarrow> contain_node (snd (insert_node n v)) v"
  by (induction n v rule: insert_node.induct) (auto simp: split_beta)

text \<open>
  C6: for every tree with the invariant and every \<open>v\<close> not present before
  (\<open>contain v\<close> is false), \<open>insert v\<close> returns true; the new tree is the old one with
  exactly one absent slot filled by a leaf holding \<open>v\<close>, so \<open>in_order\<close> gains exactly
  the element \<open>v\<close> and is one longer; the invariant still holds; and \<open>contain v\<close> is
  true afterwards.
\<close>

theorem insert_absent_value:
  assumes "strict_weak_order ((<) :: 'a::ord \<Rightarrow> 'a \<Rightarrow> bool)"
    and "bst (root t)"
    and "\<not> BST_contain t (v::'a)"
  shows "fst (BST_insert t v) \<and>
         adds_leaf (root t) v (root (snd (BST_insert t v))) \<and>
         mset (in_order (snd (BST_insert t v))) = add_mset v (mset (in_order t)) \<and>
         length (in_order (snd (BST_insert t v))) = length (in_order t) + 1 \<and>
         bst (root (snd (BST_insert t v))) \<and>
         BST_contain (snd (BST_insert t v)) v"
proof -
  have ok: "fst (insert_node (root t) v)"
    using assms(3) by (simp add: fst_insert_node BST_contain_def)
  have m: "mset (in_order (snd (BST_insert t v))) = add_mset v (mset (in_order t))"
    using in_order_insert_node [OF ok] by (simp add: in_order_def BST_insert_simps)
  have "size (mset (in_order (snd (BST_insert t v)))) = size (add_mset v (mset (in_order t)))"
    by (simp only: m)
  then have len: "length (in_order (snd (BST_insert t v))) = length (in_order t) + 1"
    by simp
  have "BST_contain (snd (BST_insert t v)) v"
    using contain_insert_node [of v "root t", OF swo_irrefl [OF assms(1)]]
    by (simp add: BST_contain_def BST_insert_simps)
  moreover have "bst (root (snd (BST_insert t v)))"
    using bst_insert_node [OF assms(2), of v] by (simp add: BST_insert_simps)
  moreover have "adds_leaf (root t) v (root (snd (BST_insert t v)))"
    using insert_node_True_adds_leaf [OF ok] by (simp add: BST_insert_simps)
  ultimately show ?thesis
    using ok m len by (simp add: BST_insert_simps)
qed

theorem insert_absent_value_witness:
  "strict_weak_order ((<) :: int \<Rightarrow> int \<Rightarrow> bool) \<and>
   bst (root \<lparr>root = Some (TreeNode (5::int) (Some (TreeNode 3 None None)) None)\<rparr>) \<and>
   \<not> BST_contain \<lparr>root = Some (TreeNode (5::int) (Some (TreeNode 3 None None)) None)\<rparr> 4 \<and>
   BST_insert \<lparr>root = Some (TreeNode (5::int) (Some (TreeNode 3 None None)) None)\<rparr> 4 =
     (True, \<lparr>root = Some (TreeNode 5 (Some (TreeNode 3 None (Some (TreeNode 4 None None)))) None)\<rparr>) \<and>
   adds_leaf (Some (TreeNode (5::int) (Some (TreeNode 3 None None)) None)) 4
     (Some (TreeNode 5 (Some (TreeNode 3 None (Some (TreeNode 4 None None)))) None)) \<and>
   in_order \<lparr>root = Some (TreeNode (5::int) (Some (TreeNode 3 None (Some (TreeNode 4 None None)))) None)\<rparr>
     = [3, 4, 5] \<and>
   BST_contain \<lparr>root = Some (TreeNode (5::int) (Some (TreeNode 3 None (Some (TreeNode 4 None None)))) None)\<rparr> 4"
  using insert_absent_value
    [OF swo_int, of "\<lparr>root = Some (TreeNode (5::int) (Some (TreeNode 3 None None)) None)\<rparr>" 4]
    swo_int
  by (simp add: BST_contain_def BST_insert_def in_order_def)

lemma insert_node_present:
  assumes "strict_weak_order ((<) :: 'a::ord \<Rightarrow> 'a \<Rightarrow> bool)"
    and "bst n" and "x \<in> elems n" and "cmp_equal (v::'a) x"
  shows "insert_node n v = (False, n)"
proof -
  have "contain_node n v"
    using contain_node_iff [OF assms(1,2), of v] assms(3,4) by blast
  then have "\<not> fst (insert_node n v)"
    by (simp add: fst_insert_node)
  then show ?thesis
    using insert_node_False_same [of n v] by (simp add: prod_eq_iff)
qed

text \<open>
  C4: for every tree with the invariant and every \<open>v\<close> comparison-equal to a stored
  value \<open>x\<close> (neither \<open>v < x\<close> nor \<open>x < v\<close>; \<open>v = x\<close> is not required), \<open>insert v\<close>
  returns false and the tree is exactly the one before.
\<close>

theorem insert_comparison_equal_rejected:
  assumes "strict_weak_order ((<) :: 'a::ord \<Rightarrow> 'a \<Rightarrow> bool)"
    and "bst (root t)"
    and "x \<in> elems (root t)"
    and "\<not> (v::'a) < x" and "\<not> x < v"
  shows "BST_insert t v = (False, t)"
  using insert_node_present [OF assms(1,2,3), of v] assms(4,5)
  by (simp add: BST_insert_def cmp_equal_def)

theorem insert_comparison_equal_rejected_witness:
  "strict_weak_order ((<) :: entry \<Rightarrow> entry \<Rightarrow> bool) \<and>
   bst (root \<lparr>root = Some (TreeNode (Entry 2 ''b'') (Some (TreeNode (Entry 1 ''a'') None None)) None)\<rparr>) \<and>
   Entry 1 ''a'' \<in> elems (root \<lparr>root = Some (TreeNode (Entry 2 ''b'') (Some (TreeNode (Entry 1 ''a'') None None)) None)\<rparr>) \<and>
   \<not> Entry 1 ''z'' < Entry 1 ''a'' \<and> \<not> Entry 1 ''a'' < Entry 1 ''z'' \<and>
   Entry 1 ''z'' \<noteq> Entry 1 ''a'' \<and>
   BST_insert \<lparr>root = Some (TreeNode (Entry 2 ''b'') (Some (TreeNode (Entry 1 ''a'') None None)) None)\<rparr>
      (Entry 1 ''z'') =
     (False, \<lparr>root = Some (TreeNode (Entry 2 ''b'') (Some (TreeNode (Entry 1 ''a'') None None)) None)\<rparr>)"
  using insert_comparison_equal_rejected
    [OF swo_entry,
     of "\<lparr>root = Some (TreeNode (Entry 2 ''b'') (Some (TreeNode (Entry 1 ''a'') None None)) None)\<rparr>"
        "Entry 1 ''a''" "Entry 1 ''z''"]
    swo_entry
  by (simp add: less_entry_def)


section \<open>Removal\<close>

lemma BST_remove_simps:
  "fst (BST_remove t v) = fst (remove_node (root t) v)"
  "root (snd (BST_remove t v)) = snd (remove_node (root t) v)"
  by (simp_all add: BST_remove_def split_beta)

lemma bst_iff_sorted:
  assumes "strict_weak_order ((<) :: 'a::ord \<Rightarrow> 'a \<Rightarrow> bool)"
  shows "bst (n :: 'a TreeNode option) \<longleftrightarrow> sorted_wrt (<) (in_order_node n [])"
proof (induction n rule: elems.induct)
  case 1
  show ?case by simp
next
  case (2 d l r)
  have "x < y" if "x < d" "d < y" for x y :: 'a
    using swo_trans [OF assms that] .
  with 2 show ?case
    by (auto simp: in_order_node_Some sorted_wrt_append set_in_order_node
          simp del: in_order_node.simps(2))
qed

lemma left_min_node: "left (min_node n) = None"
  by (induction n rule: min_node.induct) (simp split: option.splits)

lemma in_order_min_node:
  "\<exists>xs. in_order_node (Some n) [] = data (min_node n) # xs"
proof (induction n rule: min_node.induct)
  case (1 d l r)
  show ?case
  proof (cases l)
    case None
    then show ?thesis by (simp add: in_order_node_Some del: in_order_node.simps(2))
  next
    case (Some ln)
    with 1 obtain xs where "in_order_node (Some ln) [] = data (min_node ln) # xs" by blast
    with Some show ?thesis by (simp add: in_order_node_Some del: in_order_node.simps(2))
  qed
qed

lemma data_min_node_in_elems: "data (min_node n) \<in> elems (Some n)"
proof -
  obtain xs where "in_order_node (Some n) [] = data (min_node n) # xs"
    using in_order_min_node [of n] by blast
  then have "data (min_node n) \<in> set (in_order_node (Some n) [])"
    by simp
  then show ?thesis
    by (simp only: set_in_order_node)
qed

lemma min_node_least:
  assumes "strict_weak_order ((<) :: 'a::ord \<Rightarrow> 'a \<Rightarrow> bool)"
    and "bst (Some (n :: 'a TreeNode))" and "x \<in> elems (Some n)"
  shows "\<not> x < data (min_node n)"
proof
  assume lt: "x < data (min_node n)"
  obtain xs where xs: "in_order_node (Some n) [] = data (min_node n) # xs"
    using in_order_min_node [of n] by blast
  have "sorted_wrt (<) (data (min_node n) # xs)"
    using assms(2) bst_iff_sorted [OF assms(1), of "Some n"] xs by simp
  moreover have "x \<in> set (data (min_node n) # xs)"
    using assms(3) xs set_in_order_node [of "Some n"] by simp
  ultimately have "x = data (min_node n) \<or> data (min_node n) < x"
    by auto
  then show False
  proof
    assume "x = data (min_node n)"
    with lt swo_irrefl [OF assms(1), of x] show False by simp
  next
    assume "data (min_node n) < x"
    from swo_trans [OF assms(1) lt this] swo_irrefl [OF assms(1), of x] show False by simp
  qed
qed

lemma fst_remove_node: "fst (remove_node n v) = contain_node n v"
  by (induction n v rule: remove_node.induct)
     (auto simp: split_beta Let_def split: option.splits)

lemma remove_node_absent:
  "\<forall>x \<in> elems n. v < x \<or> x < v \<Longrightarrow> remove_node n v = (False, n)"
  by (induction n v rule: remove_node.induct) auto

text \<open>
  C5: for every tree (the invariant is not needed) and every \<open>v\<close> that is not
  comparison-equal to any stored value, \<open>remove v\<close> returns false and the tree, hence
  its \<open>in_order\<close>, is as before. On the empty tree \<open>contain x\<close> and \<open>remove x\<close> return
  false for every \<open>x\<close>.
\<close>

theorem remove_absent_value:
  "((\<forall>x \<in> elems (root t). v < x \<or> x < v) \<longrightarrow>
      BST_remove t v = (False, t) \<and> in_order (snd (BST_remove t v)) = in_order t) \<and>
   \<not> BST_contain BST_new y \<and>
   BST_remove BST_new y = (False, BST_new)"
proof -
  have "BST_remove t v = (False, t) \<and> in_order (snd (BST_remove t v)) = in_order t"
    if "\<forall>x \<in> elems (root t). v < x \<or> x < v"
    using remove_node_absent [OF that] by (simp add: BST_remove_def)
  moreover have "\<not> BST_contain BST_new y"
    by (simp add: BST_contain_def BST_new_def)
  moreover have "BST_remove BST_new y = (False, BST_new)"
    by (simp add: BST_remove_def BST_new_def)
  ultimately show ?thesis by blast
qed

theorem remove_absent_value_witness:
  "elems (root \<lparr>root = Some (TreeNode (5::int) (Some (TreeNode 3 None None)) None)\<rparr>) = {3, 5} \<and>
   (3::int) < 4 \<and> (4::int) < 5 \<and>
   BST_remove \<lparr>root = Some (TreeNode (5::int) (Some (TreeNode 3 None None)) None)\<rparr> 4 =
     (False, \<lparr>root = Some (TreeNode (5::int) (Some (TreeNode 3 None None)) None)\<rparr>) \<and>
   in_order (snd (BST_remove \<lparr>root = Some (TreeNode (5::int) (Some (TreeNode 3 None None)) None)\<rparr> 4))
     = [3, 5]"
  using remove_absent_value
    [of "\<lparr>root = Some (TreeNode (5::int) (Some (TreeNode 3 None None)) None)\<rparr>" 4]
  by (auto simp add: BST_remove_def in_order_def)


lemma in_order_remove_node:
  assumes "strict_weak_order ((<) :: 'a::ord \<Rightarrow> 'a \<Rightarrow> bool)"
  shows "bst n \<Longrightarrow>
    in_order_node (snd (remove_node n (v::'a))) [] =
      filter (\<lambda>x. \<not> cmp_equal v x) (in_order_node n [])"
proof (induction n v rule: remove_node.induct)
  case (1 v)
  show ?case by simp
next
  case (2 d l r v)
  have bl: "bst l" and br: "bst r" and L: "\<forall>x \<in> elems l. x < d" and R: "\<forall>x \<in> elems r. d < x"
    using "2.prems" by auto
  show ?case
  proof (cases "v < d")
    case True
    have keep: "\<not> cmp_equal v x" if "x \<in> elems r \<or> x = d" for x
    proof
      assume e: "cmp_equal v x"
      from swo_cotrans [OF assms True, of x] e have "x < d" by (simp add: cmp_equal_def)
      with that R swo_trans [OF assms, of d x d] swo_irrefl [OF assms, of d]
      show False by auto
    qed
    then have "filter (\<lambda>x. \<not> cmp_equal v x) (in_order_node r []) = in_order_node r []"
      by (simp add: set_in_order_node)
    with True "2.IH"(1) bl keep show ?thesis
      by (simp add: split_beta in_order_node_Some del: in_order_node.simps(2))
  next
    case False
    note nlt = this
    show ?thesis
    proof (cases "d < v")
      case True
      have keep: "\<not> cmp_equal v x" if "x \<in> elems l \<or> x = d" for x
      proof
        assume e: "cmp_equal v x"
        from swo_cotrans [OF assms True, of x] e have "d < x" by (simp add: cmp_equal_def)
        with that L swo_trans [OF assms, of d x d] swo_irrefl [OF assms, of d]
        show False by auto
      qed
      then have "filter (\<lambda>x. \<not> cmp_equal v x) (in_order_node l []) = in_order_node l []"
        by (simp add: set_in_order_node)
      with True nlt "2.IH"(2) br keep show ?thesis
        by (simp add: split_beta in_order_node_Some del: in_order_node.simps(2))
    next
      case False
      note ngt = this
      have keepl: "\<not> cmp_equal v x" if "x \<in> elems l" for x
      proof
        assume e: "cmp_equal v x"
        from that L have "x < d" by simp
        from swo_cotrans [OF assms this, of v] e nlt show False by (simp add: cmp_equal_def)
      qed
      have keepr: "\<not> cmp_equal v x" if "x \<in> elems r" for x
      proof
        assume e: "cmp_equal v x"
        from that R have "d < x" by simp
        from swo_cotrans [OF assms this, of v] e ngt show False by (simp add: cmp_equal_def)
      qed
      have fl: "filter (\<lambda>x. \<not> cmp_equal v x) (in_order_node l []) = in_order_node l []"
        using keepl by (simp add: set_in_order_node)
      have fr: "filter (\<lambda>x. \<not> cmp_equal v x) (in_order_node r []) = in_order_node r []"
        using keepr by (simp add: set_in_order_node)
      have goal: "filter (\<lambda>x. \<not> cmp_equal v x) (in_order_node (Some (TreeNode d l r)) [])
                    = in_order_node l [] @ in_order_node r []"
        using fl fr nlt ngt
        by (simp add: in_order_node_Some cmp_equal_def del: in_order_node.simps(2))
      show ?thesis
      proof (cases l)
        case None
        with nlt ngt goal show ?thesis by simp
      next
        case (Some ln)
        note l = this
        show ?thesis
        proof (cases r)
          case None
          with l nlt ngt goal show ?thesis by simp
        next
          case (Some rn)
          let ?m = "data (min_node rn)"
          obtain xs where xs: "in_order_node r [] = ?m # xs"
            using in_order_min_node [of rn] Some by auto
          have "sorted_wrt (<) (?m # xs)"
            using br bst_iff_sorted [OF assms, of r] xs by simp
          then have "\<forall>x \<in> set xs. \<not> cmp_equal ?m x" by (auto simp: cmp_equal_def)
          then have "filter (\<lambda>x. \<not> cmp_equal ?m x) (in_order_node r []) = xs"
            using xs swo_irrefl [OF assms, of ?m] by (simp add: cmp_equal_def)
          moreover have "in_order_node (snd (remove_node r ?m)) []
                 = filter (\<lambda>x. \<not> cmp_equal ?m x) (in_order_node r [])"
            using "2.IH"(3) [OF nlt ngt l Some refl refl] br by simp
          ultimately have rm: "in_order_node (snd (remove_node r ?m)) [] = xs" by simp
          have "in_order_node (snd (remove_node (Some (TreeNode d l r)) v)) []
                  = in_order_node l [] @ ?m # in_order_node (snd (remove_node r ?m)) []"
            using l Some nlt ngt
            by (simp add: in_order_node_Some Let_def del: in_order_node.simps(2))
          also have "\<dots> = in_order_node l [] @ in_order_node r []"
            using xs rm by simp
          finally show ?thesis using goal by simp
        qed
      qed
    qed
  qed
qed

lemma bst_remove_node:
  assumes "strict_weak_order ((<) :: 'a::ord \<Rightarrow> 'a \<Rightarrow> bool)" and "bst n"
  shows "bst (snd (remove_node n (v::'a)))"
proof -
  have "sorted_wrt (<) (in_order_node n [])"
    using assms(2) bst_iff_sorted [OF assms(1), of n] by simp
  then have "sorted_wrt (<) (filter (\<lambda>x. \<not> cmp_equal v x) (in_order_node n []))"
    by (rule sorted_wrt_filter)
  then have "sorted_wrt (<) (in_order_node (snd (remove_node n v)) [])"
    by (simp only: in_order_remove_node [OF assms, of v])
  then show ?thesis
    by (simp only: bst_iff_sorted [OF assms(1), of "snd (remove_node n v)"])
qed

lemma cmp_equal_stored:
  assumes "strict_weak_order ((<) :: 'a::ord \<Rightarrow> 'a \<Rightarrow> bool)"
    and "bst n" and "(v::'a) \<in> elems n" and "x \<in> elems n"
  shows "cmp_equal v x \<longleftrightarrow> x = v"
proof
  assume e: "cmp_equal v x"
  have s: "sorted_wrt (<) (in_order_node n [])"
    using assms(2) bst_iff_sorted [OF assms(1), of n] by simp
  show "x = v"
  proof (rule ccontr)
    assume "x \<noteq> v"
    with sorted_wrt_comparable [OF s, of x v] assms(3,4)
    have "x < v \<or> v < x" by (simp add: set_in_order_node)
    with e show False by (auto simp: cmp_equal_def)
  qed
next
  assume "x = v"
  then show "cmp_equal v x"
    using swo_irrefl [OF assms(1), of v] by (simp add: cmp_equal_def)
qed

text \<open>
  C3: for every tree with the invariant and every \<open>v\<close> present in it (\<open>contain v\<close> is
  true), \<open>remove v\<close> returns true and keeps the invariant; \<open>in_order\<close> afterwards is
  \<open>in_order\<close> before without the value comparison-equal to \<open>v\<close>, all other values in
  the same relative order; \<open>v\<close> occurs in none of the three traversals and
  \<open>contain v\<close> is false afterwards. When \<open>v\<close> itself is stored, the value taken out is
  \<open>v\<close> and nothing else.
\<close>

theorem remove_present_value:
  assumes "strict_weak_order ((<) :: 'a::ord \<Rightarrow> 'a \<Rightarrow> bool)"
    and "bst (root t)"
    and "BST_contain t (v::'a)"
  shows "fst (BST_remove t v) \<and>
         bst (root (snd (BST_remove t v))) \<and>
         in_order (snd (BST_remove t v)) = filter (\<lambda>x. \<not> cmp_equal v x) (in_order t) \<and>
         (v \<in> elems (root t) \<longrightarrow>
            in_order (snd (BST_remove t v)) = filter (\<lambda>x. x \<noteq> v) (in_order t)) \<and>
         v \<notin> set (in_order (snd (BST_remove t v))) \<and>
         v \<notin> set (pre_order (snd (BST_remove t v))) \<and>
         v \<notin> set (post_order (snd (BST_remove t v))) \<and>
         \<not> BST_contain (snd (BST_remove t v)) v"
proof -
  let ?t' = "snd (BST_remove t v)"
  have ret: "fst (BST_remove t v)"
    using assms(3) by (simp add: BST_remove_simps fst_remove_node BST_contain_def)
  have inv: "bst (root ?t')"
    using bst_remove_node [OF assms(1,2), of v] by (simp add: BST_remove_simps)
  have io: "in_order ?t' = filter (\<lambda>x. \<not> cmp_equal v x) (in_order t)"
    using in_order_remove_node [OF assms(1,2), of v] by (simp add: in_order_def BST_remove_simps)
  have self: "cmp_equal v v"
    using swo_irrefl [OF assms(1), of v] by (simp add: cmp_equal_def)
  have stored: "in_order ?t' = filter (\<lambda>x. x \<noteq> v) (in_order t)" if "v \<in> elems (root t)"
  proof -
    have "filter (\<lambda>x. \<not> cmp_equal v x) (in_order t) = filter (\<lambda>x. x \<noteq> v) (in_order t)"
      using cmp_equal_stored [OF assms(1,2) that]
      by (intro filter_cong) (simp_all add: in_order_def set_in_order_node)
    with io show ?thesis by simp
  qed
  have none: "\<forall>x \<in> set (in_order ?t'). \<not> cmp_equal v x"
    by (simp add: io)
  then have nin: "v \<notin> set (in_order ?t')"
    using self by blast
  have "set (pre_order ?t') = set (in_order ?t')"
    using traversals_pre_in [of ?t'] by (rule mset_eq_setD)
  then have npre: "v \<notin> set (pre_order ?t')"
    using nin by simp
  have "set (post_order ?t') = set (in_order ?t')"
    using traversals_post_in [of ?t'] by (rule mset_eq_setD)
  then have npost: "v \<notin> set (post_order ?t')"
    using nin by simp
  have "\<not> contain_node (root ?t') v"
    using contain_node_iff [OF assms(1) inv, of v] none
    by (simp add: in_order_def set_in_order_node)
  then have ncont: "\<not> BST_contain ?t' v"
    by (simp add: BST_contain_def)
  from ret inv io stored nin npre npost ncont show ?thesis by blast
qed


theorem remove_present_value_witness:
  "strict_weak_order ((<) :: int \<Rightarrow> int \<Rightarrow> bool) \<and>
   bst (root \<lparr>root = Some (TreeNode (5::int) (Some (TreeNode 3 None None)) (Some (TreeNode 8 None None)))\<rparr>) \<and>
   BST_contain \<lparr>root = Some (TreeNode (5::int) (Some (TreeNode 3 None None)) (Some (TreeNode 8 None None)))\<rparr> 5 \<and>
   BST_remove \<lparr>root = Some (TreeNode (5::int) (Some (TreeNode 3 None None)) (Some (TreeNode 8 None None)))\<rparr> 5
     = (True, \<lparr>root = Some (TreeNode 8 (Some (TreeNode 3 None None)) None)\<rparr>) \<and>
   in_order \<lparr>root = Some (TreeNode (5::int) (Some (TreeNode 3 None None)) (Some (TreeNode 8 None None)))\<rparr>
     = [3, 5, 8] \<and>
   in_order \<lparr>root = Some (TreeNode (8::int) (Some (TreeNode 3 None None)) None)\<rparr> = [3, 8] \<and>
   pre_order \<lparr>root = Some (TreeNode (8::int) (Some (TreeNode 3 None None)) None)\<rparr> = [8, 3] \<and>
   post_order \<lparr>root = Some (TreeNode (8::int) (Some (TreeNode 3 None None)) None)\<rparr> = [3, 8] \<and>
   \<not> BST_contain \<lparr>root = Some (TreeNode (8::int) (Some (TreeNode 3 None None)) None)\<rparr> 5"
  using remove_present_value
    [OF swo_int,
     of "\<lparr>root = Some (TreeNode (5::int) (Some (TreeNode 3 None None)) (Some (TreeNode 8 None None)))\<rparr>" 5]
    swo_int
  by (simp add: BST_contain_def BST_remove_def in_order_def pre_order_def post_order_def)

lemma remove_min_node:
  assumes irrefl: "\<And>a::'a::ord. \<not> a < a"
  shows "bst (Some n) \<Longrightarrow>
    remove_node (Some n) (data (min_node n)) = (True, splice_min (n :: 'a TreeNode))"
proof (induction n rule: min_node.induct)
  case (1 d l r)
  show ?case
  proof (cases l)
    case None
    have "remove_node (Some (TreeNode d None r)) d = (True, r)"
      using irrefl [of d] by simp
    then show ?thesis unfolding None by simp
  next
    case (Some ln)
    have "data (min_node ln) \<in> elems l"
      unfolding Some by (rule data_min_node_in_elems)
    moreover have "\<forall>x \<in> elems l. x < d"
      using "1.prems" by simp
    ultimately have lt: "data (min_node ln) < d" by blast
    have "bst l" using "1.prems" by simp
    then have "bst (Some ln)" unfolding Some .
    with Some have ih: "remove_node (Some ln) (data (min_node ln)) = (True, splice_min ln)"
      by (rule "1.IH")
    have m: "data (min_node (TreeNode d (Some ln) r)) = data (min_node ln)" by simp
    have sp: "splice_min (TreeNode d (Some ln) r) = Some (TreeNode d (splice_min ln) r)" by simp
    have rm: "remove_node (Some (TreeNode d (Some ln) r)) (data (min_node ln))
            = (True, Some (TreeNode d (splice_min ln) r))"
      using lt ih by simp
    show ?thesis unfolding Some m sp by (rule rm)
  qed
qed

lemma find_min_node:
  assumes irrefl: "\<And>a::'a::ord. \<not> a < a"
  shows "bst (Some n) \<Longrightarrow>
    find_node_rec (Some n) (data (min_node n)) = Some (min_node (n :: 'a TreeNode))"
proof (induction n rule: min_node.induct)
  case (1 d l r)
  show ?case
  proof (cases l)
    case None
    have "find_node_rec (Some (TreeNode d None r)) d = Some (TreeNode d None r)"
      using irrefl [of d] by simp
    then show ?thesis unfolding None by simp
  next
    case (Some ln)
    have "data (min_node ln) \<in> elems l"
      unfolding Some by (rule data_min_node_in_elems)
    moreover have "\<forall>x \<in> elems l. x < d"
      using "1.prems" by simp
    ultimately have lt: "data (min_node ln) < d" by blast
    have "bst l" using "1.prems" by simp
    then have "bst (Some ln)" unfolding Some .
    with Some have ih: "find_node_rec (Some ln) (data (min_node ln)) = Some (min_node ln)"
      by (rule "1.IH")
    have m: "min_node (TreeNode d (Some ln) r) = min_node ln" by simp
    have "find_node_rec (Some (TreeNode d (Some ln) r)) (data (min_node ln)) = Some (min_node ln)"
      using lt ih by simp
    then show ?thesis unfolding Some m .
  qed
qed

lemma bst_subtrees: "bst n \<Longrightarrow> s \<in> subtrees n \<Longrightarrow> bst (Some s)"
proof (induction n rule: subtrees.induct)
  case 1
  then show ?case by simp
next
  case (2 d l r)
  from "2.prems"(2) consider "s = TreeNode d l r" | "s \<in> subtrees l" | "s \<in> subtrees r"
    by auto
  then show ?case
  proof cases
    case 1
    with "2.prems"(1) show ?thesis by simp
  next
    case 2
    moreover have "bst l" using "2.prems"(1) by simp
    ultimately show ?thesis by (rule "2.IH"(1) [rotated])
  next
    case 3
    moreover have "bst r" using "2.prems"(1) by simp
    ultimately show ?thesis by (rule "2.IH"(2) [rotated])
  qed
qed

lemma data_subtrees: "s \<in> subtrees n \<Longrightarrow> data s \<in> elems n"
  by (induction n rule: subtrees.induct) auto

lemma find_stored_node:
  assumes "strict_weak_order ((<) :: 'a::ord \<Rightarrow> 'a \<Rightarrow> bool)"
  shows "bst n \<Longrightarrow> TreeNode (v::'a) sl sr \<in> subtrees n \<Longrightarrow>
    find_node_rec n v = Some (TreeNode v sl sr)"
proof (induction n v rule: find_node_rec.induct)
  case (1 v)
  then show ?case by simp
next
  case (2 d l r v)
  have bl: "bst l" and br: "bst r" and L: "\<forall>x \<in> elems l. x < d" and R: "\<forall>x \<in> elems r. d < x"
    using "2.prems"(1) by auto
  from "2.prems"(2)
  consider "TreeNode v sl sr = TreeNode d l r"
    | "TreeNode v sl sr \<in> subtrees l" | "TreeNode v sl sr \<in> subtrees r"
    by auto
  then show ?case
  proof cases
    case 1
    then show ?thesis using swo_irrefl [OF assms, of d] by simp
  next
    case 2
    then have "v \<in> elems l" using data_subtrees [of "TreeNode v sl sr" l] by simp
    with L have lt: "v < d" by blast
    with "2.IH"(1) bl 2 show ?thesis by simp
  next
    case 3
    then have "v \<in> elems r" using data_subtrees [of "TreeNode v sl sr" r] by simp
    with R have gt: "d < v" by blast
    have nlt: "\<not> v < d"
      using swo_trans [OF assms gt, of d] swo_irrefl [OF assms, of d] by blast
    with "2.IH"(2) gt br 3 show ?thesis by simp
  qed
qed

lemma remove_node_two_children:
  "find_node_rec n v = Some (TreeNode d (Some ln) (Some rn)) \<Longrightarrow>
   remove_node n v =
     (True, replace_node n v
        (Some (TreeNode (data (min_node rn)) (Some ln)
           (snd (remove_node (Some rn) (data (min_node rn)))))))"
  by (induction n v rule: find_node_rec.induct) (auto simp: Let_def split: if_splits)

text \<open>
  C2: for every tree with the invariant and every value \<open>v\<close> stored in a node with
  both children \<open>ln\<close> and \<open>rn\<close>, the descent for \<open>v\<close> stops at that node;
  \<open>remove v\<close> returns true and the tree afterwards is the tree before with that node
  replaced by one that holds the value of \<open>min_node rn\<close> (the least value of the
  right subtree), keeps the left child, and has as right child \<open>rn\<close> without that
  value. The inner removal stops at \<open>min_node rn\<close> itself, which has no left child,
  so it takes the first case and splices that node out. After inserting 5, 3, 8, 1, 4,
  7, 9 into the empty tree, \<open>remove 5\<close> returns true and \<open>in_order\<close> is
  [1,3,4,7,8,9].
\<close>

theorem remove_two_children:
  "(strict_weak_order ((<) :: 'a::ord \<Rightarrow> 'a \<Rightarrow> bool) \<and> bst (root t) \<and>
    TreeNode (v::'a) (Some ln) (Some rn) \<in> subtrees (root t) \<longrightarrow>
      find_node t v = Some (TreeNode v (Some ln) (Some rn)) \<and>
      data (min_node rn) \<in> elems (Some rn) \<and>
      (\<forall>x \<in> elems (Some rn). \<not> x < data (min_node rn)) \<and>
      find_node_rec (Some rn) (data (min_node rn)) = Some (min_node rn) \<and>
      left (min_node rn) = None \<and>
      remove_node (Some rn) (data (min_node rn)) = (True, splice_min rn) \<and>
      BST_remove t v =
        (True, t\<lparr>root := replace_node (root t) v
                  (Some (TreeNode (data (min_node rn)) (Some ln) (splice_min rn)))\<rparr>)) \<and>
   fst (BST_remove
          (run_ops [Insert 5, Insert 3, Insert 8, Insert 1, Insert 4, Insert 7, Insert (9::int)]) 5) \<and>
   in_order (snd (BST_remove
          (run_ops [Insert 5, Insert 3, Insert 8, Insert 1, Insert 4, Insert 7, Insert (9::int)]) 5))
     = [1, 3, 4, 7, 8, 9]"
proof -
  have general:
     "find_node t v = Some (TreeNode v (Some ln) (Some rn)) \<and>
      data (min_node rn) \<in> elems (Some rn) \<and>
      (\<forall>x \<in> elems (Some rn). \<not> x < data (min_node rn)) \<and>
      find_node_rec (Some rn) (data (min_node rn)) = Some (min_node rn) \<and>
      left (min_node rn) = None \<and>
      remove_node (Some rn) (data (min_node rn)) = (True, splice_min rn) \<and>
      BST_remove t v =
        (True, t\<lparr>root := replace_node (root t) v
                  (Some (TreeNode (data (min_node rn)) (Some ln) (splice_min rn)))\<rparr>)"
    if swo: "strict_weak_order ((<) :: 'a \<Rightarrow> 'a \<Rightarrow> bool)" and inv: "bst (root t)"
      and stored: "TreeNode v (Some ln) (Some rn) \<in> subtrees (root t)"
  proof -
    have f: "find_node_rec (root t) v = Some (TreeNode v (Some ln) (Some rn))"
      using inv stored by (rule find_stored_node [OF swo])
    then have found: "find_node t v = Some (TreeNode v (Some ln) (Some rn))"
      by (simp add: find_node_def)
    have "bst (Some (TreeNode v (Some ln) (Some rn)))"
      using inv stored by (rule bst_subtrees)
    then have br: "bst (Some rn)" by simp
    have rm: "remove_node (Some rn) (data (min_node rn)) = (True, splice_min rn)"
      using br by (rule remove_min_node [OF swo_irrefl [OF swo]])
    have fm: "find_node_rec (Some rn) (data (min_node rn)) = Some (min_node rn)"
      using br by (rule find_min_node [OF swo_irrefl [OF swo]])
    have least: "\<forall>x \<in> elems (Some rn). \<not> x < data (min_node rn)"
      using min_node_least [OF swo br] by blast
    have "BST_remove t v =
        (True, t\<lparr>root := replace_node (root t) v
                  (Some (TreeNode (data (min_node rn)) (Some ln) (splice_min rn)))\<rparr>)"
      using remove_node_two_children [OF f] rm by (simp add: BST_remove_def)
    with found rm fm least data_min_node_in_elems [of rn] left_min_node [of rn]
    show ?thesis by blast
  qed
  have c1: "fst (BST_remove
          (run_ops [Insert 5, Insert 3, Insert 8, Insert 1, Insert 4, Insert 7, Insert (9::int)]) 5)"
    by (simp add: run_ops_def BST_new_def BST_insert_def BST_remove_def)
  have c2: "in_order (snd (BST_remove
          (run_ops [Insert 5, Insert 3, Insert 8, Insert 1, Insert 4, Insert 7, Insert (9::int)]) 5))
     = [1, 3, 4, 7, 8, 9]"
    by (simp add: run_ops_def BST_new_def BST_insert_def BST_remove_def in_order_def)
  from general c1 c2 show ?thesis by blast
qed

theorem remove_two_children_witness:
  "strict_weak_order ((<) :: int \<Rightarrow> int \<Rightarrow> bool) \<and>
   bst (root \<lparr>root = Some (TreeNode (5::int)
          (Some (TreeNode 3 (Some (TreeNode 1 None None)) (Some (TreeNode 4 None None))))
          (Some (TreeNode 8 (Some (TreeNode 7 None None)) (Some (TreeNode 9 None None)))))\<rparr>) \<and>
   TreeNode (5::int)
          (Some (TreeNode 3 (Some (TreeNode 1 None None)) (Some (TreeNode 4 None None))))
          (Some (TreeNode 8 (Some (TreeNode 7 None None)) (Some (TreeNode 9 None None))))
     \<in> subtrees (root \<lparr>root = Some (TreeNode (5::int)
          (Some (TreeNode 3 (Some (TreeNode 1 None None)) (Some (TreeNode 4 None None))))
          (Some (TreeNode 8 (Some (TreeNode 7 None None)) (Some (TreeNode 9 None None)))))\<rparr>) \<and>
   min_node (TreeNode (8::int) (Some (TreeNode 7 None None)) (Some (TreeNode 9 None None)))
     = TreeNode 7 None None \<and>
   remove_node (Some (TreeNode (8::int) (Some (TreeNode 7 None None)) (Some (TreeNode 9 None None)))) 7
     = (True, Some (TreeNode 8 None (Some (TreeNode 9 None None)))) \<and>
   BST_remove \<lparr>root = Some (TreeNode (5::int)
          (Some (TreeNode 3 (Some (TreeNode 1 None None)) (Some (TreeNode 4 None None))))
          (Some (TreeNode 8 (Some (TreeNode 7 None None)) (Some (TreeNode 9 None None)))))\<rparr> 5
     = (True, \<lparr>root = Some (TreeNode 7
          (Some (TreeNode 3 (Some (TreeNode 1 None None)) (Some (TreeNode 4 None None))))
          (Some (TreeNode 8 None (Some (TreeNode 9 None None)))))\<rparr>)"
  using remove_two_children
    [of "\<lparr>root = Some (TreeNode (5::int)
          (Some (TreeNode 3 (Some (TreeNode 1 None None)) (Some (TreeNode 4 None None))))
          (Some (TreeNode 8 (Some (TreeNode 7 None None)) (Some (TreeNode 9 None None)))))\<rparr>"
        5
        "TreeNode 3 (Some (TreeNode 1 None None)) (Some (TreeNode 4 None None))"
        "TreeNode 8 (Some (TreeNode 7 None None)) (Some (TreeNode 9 None None))"]
    swo_int
  by (simp add: find_node_def BST_remove_def)

section \<open>Sequences of operations\<close>

lemma bst_apply_op:
  assumes "strict_weak_order ((<) :: 'a::ord \<Rightarrow> 'a \<Rightarrow> bool)" and "bst (root t)"
  shows "bst (root (apply_op t (p :: 'a op)))"
proof (cases p)
  case (Insert v)
  then show ?thesis
    using bst_insert_node [OF assms(2), of v] by (simp add: BST_insert_simps)
next
  case (Remove v)
  then show ?thesis
    using bst_remove_node [OF assms, of v] by (simp add: BST_remove_simps)
qed

lemma bst_foldl_apply_op:
  assumes "strict_weak_order ((<) :: 'a::ord \<Rightarrow> 'a \<Rightarrow> bool)"
  shows "bst (root t) \<Longrightarrow> bst (root (foldl apply_op t (ops :: 'a op list)))"
proof (induction ops arbitrary: t)
  case Nil
  then show ?case by simp
next
  case (Cons p ops)
  have "bst (root (apply_op t p))"
    using assms Cons.prems by (rule bst_apply_op)
  then have "bst (root (foldl apply_op (apply_op t p) ops))"
    by (rule Cons.IH)
  then show ?case by simp
qed

text \<open>
  C1: for every finite sequence of \<open>insert\<close> and \<open>remove\<close> calls run from the empty
  tree, the resulting tree has the invariant, and its \<open>in_order\<close> is strictly ascending
  and without duplicates.
\<close>

theorem operations_keep_invariant:
  assumes "strict_weak_order ((<) :: 'a::ord \<Rightarrow> 'a \<Rightarrow> bool)"
  shows "bst (root (run_ops (ops :: 'a op list))) \<and>
         sorted_wrt (<) (in_order (run_ops ops)) \<and>
         distinct (in_order (run_ops ops))"
proof -
  have "bst (root (BST_new :: 'a BST))"
    by (simp add: BST_new_def)
  then have inv: "bst (root (run_ops ops))"
    unfolding run_ops_def by (rule bst_foldl_apply_op [OF assms])
  then have s: "sorted_wrt (<) (in_order (run_ops ops))"
    using bst_iff_sorted [OF assms, of "root (run_ops ops)"] by (simp add: in_order_def)
  then have "distinct (in_order (run_ops ops))"
    using swo_irrefl [OF assms] by (rule sorted_wrt_distinct)
  with inv s show ?thesis by simp
qed

theorem operations_keep_invariant_witness:
  "strict_weak_order ((<) :: int \<Rightarrow> int \<Rightarrow> bool) \<and>
   run_ops [Insert 5, Insert 3, Insert 8, Insert 3, Remove 5, Remove 6, Insert (4::int)]
     = \<lparr>root = Some (TreeNode 8 (Some (TreeNode 3 None (Some (TreeNode 4 None None)))) None)\<rparr> \<and>
   bst (root (run_ops [Insert 5, Insert 3, Insert 8, Insert 3, Remove 5, Remove 6, Insert (4::int)])) \<and>
   in_order (run_ops [Insert 5, Insert 3, Insert 8, Insert 3, Remove 5, Remove 6, Insert (4::int)])
     = [3, 4, 8] \<and>
   sorted_wrt (<) (in_order
     (run_ops [Insert 5, Insert 3, Insert 8, Insert 3, Remove 5, Remove 6, Insert (4::int)])) \<and>
   distinct (in_order
     (run_ops [Insert 5, Insert 3, Insert 8, Insert 3, Remove 5, Remove 6, Insert (4::int)]))"
  using operations_keep_invariant
    [OF swo_int, of "[Insert 5, Insert 3, Insert 8, Insert 3, Remove 5, Remove 6, Insert (4::int)]"]
    swo_int
  by (simp add: run_ops_def BST_new_def BST_insert_def BST_remove_def in_order_def)


end
